theory Spec2Isabelle
  imports Main "HOL-Library.Word"
begin

unbundle bit_operations_syntax

section \<open>Bitcesque: an append-only key/value log with an in-memory index\<close>

text \<open>
  A shallow embedding of the Go package \<^verbatim>\<open>bitcesque\<close> (files \<^verbatim>\<open>bitshift.go\<close>,
  \<^verbatim>\<open>document.go\<close>, \<^verbatim>\<open>data.go\<close>, \<^verbatim>\<open>keyfile.go\<close>).

  Conventions of the model.
  \<^item> A Go \<^verbatim>\<open>[]byte\<close> is a \<open>byte list\<close>; \<^verbatim>\<open>uint32\<close> is \<open>32 word\<close>, so that
    \<^verbatim>\<open>uint32(len(k))\<close> truncates as in Go. Positions in a file (\<^verbatim>\<open>uint64\<close>) are
    \<open>nat\<close>: they are bounded by file sizes and never reach \<open>2 ^ 64\<close>; only the key
    snapshot stores a position as a \<open>64 word\<close>.
  \<^item> The files behind a handle are their contents. The data file is opened with
    \<^verbatim>\<open>O_APPEND\<close>, so every write lands at its end, whatever \<^verbatim>\<open>filledSize\<close> says.
  \<^item> The memory map shows the current contents of the data file. A read of the mapping
    at or behind the end of the file is the outcome \<open>PastEOF\<close>: what the process then
    sees (zero bytes up to the end of the page, a bus error behind it) belongs to the
    operating system and is not modelled. A slice or index expression beyond the length
    of the mapping is a Go run-time panic, the outcome \<open>Panic\<close>.
  \<^item> Go iterates over a map in an unspecified order. Every loop over \<^verbatim>\<open>d.kToPos\<close>
    takes the order as a list of keys.
  \<^item> Operating-system calls other than the ones named below are taken to succeed; the
    lock is not modelled (one caller).
\<close>

type_synonym byte = "8 word"

subsection \<open>bitshift.go\<close>

text \<open>The callers write into a buffer they have just made, so every index is in range.\<close>

definition uint32ToBytes :: "byte list \<Rightarrow> nat \<Rightarrow> 32 word \<Rightarrow> byte list" where
  "uint32ToBytes targ idx val =
     targ[idx := ucast (val AND 0xff),
          idx + 1 := ucast (drop_bit 8 val AND 0xff),
          idx + 2 := ucast (drop_bit 16 val AND 0xff),
          idx + 3 := ucast (drop_bit 24 val AND 0xff)]"

text \<open>Reads four bytes; the callers below check the range first where Go would panic.\<close>

definition uint32FromBytes :: "byte list \<Rightarrow> nat \<Rightarrow> 32 word" where
  "uint32FromBytes targ idx =
     ucast (targ ! idx) OR push_bit 8 (ucast (targ ! (idx + 1))) OR
     push_bit 16 (ucast (targ ! (idx + 2))) OR push_bit 24 (ucast (targ ! (idx + 3)))"

definition uint64ToBytes :: "byte list \<Rightarrow> nat \<Rightarrow> 64 word \<Rightarrow> byte list" where
  "uint64ToBytes targ idx val =
     targ[idx := ucast (val AND 0xff),
          idx + 1 := ucast (drop_bit 8 val AND 0xff),
          idx + 2 := ucast (drop_bit 16 val AND 0xff),
          idx + 3 := ucast (drop_bit 24 val AND 0xff),
          idx + 4 := ucast (drop_bit 32 val AND 0xff),
          idx + 5 := ucast (drop_bit 40 val AND 0xff),
          idx + 6 := ucast (drop_bit 48 val AND 0xff),
          idx + 7 := ucast (drop_bit 56 val AND 0xff)]"

definition uint64FromBytes :: "byte list \<Rightarrow> nat \<Rightarrow> 64 word" where
  "uint64FromBytes targ idx =
     (let out = ucast (targ ! idx) OR push_bit 8 (ucast (targ ! (idx + 1))) OR
                push_bit 16 (ucast (targ ! (idx + 2))) OR push_bit 24 (ucast (targ ! (idx + 3)))
      in out OR (push_bit 32 (ucast (targ ! (idx + 4))) OR push_bit 40 (ucast (targ ! (idx + 5))) OR
                 push_bit 48 (ucast (targ ! (idx + 6))) OR push_bit 56 (ucast (targ ! (idx + 7)))))"

subsection \<open>The checksum\<close>

text \<open>
  Modelled from the spec: the checksum is CRC-32C (Castagnoli). \<^verbatim>\<open>document.go\<close> calls
  \<^verbatim>\<open>crc32.Checksum(data, crc32.MakeTable(crc32.Castagnoli))\<close> of Go's standard library,
  which is not part of the repository. The definition is the library's byte-wise
  algorithm: the reflected polynomial \<open>0x82f63b78\<close>, a table entry made by eight
  shift-and-xor steps, the register started at all ones and complemented at the end.
\<close>

definition Castagnoli :: "32 word" where
  "Castagnoli = 0x82f63b78"

fun simpleMakeEntry :: "nat \<Rightarrow> 32 word \<Rightarrow> 32 word" where
  "simpleMakeEntry 0 crc = crc"
| "simpleMakeEntry (Suc j) crc =
     simpleMakeEntry j (if crc AND 1 = 1 then drop_bit 1 crc XOR Castagnoli else drop_bit 1 crc)"

definition crcTable :: "byte \<Rightarrow> 32 word" where
  "crcTable i = simpleMakeEntry 8 (ucast i)"

fun simpleUpdate :: "32 word \<Rightarrow> byte list \<Rightarrow> 32 word" where
  "simpleUpdate crc [] = crc"
| "simpleUpdate crc (v # p) = simpleUpdate (crcTable (ucast crc XOR v) XOR drop_bit 8 crc) p"

definition Checksum :: "byte list \<Rightarrow> 32 word" where
  "Checksum data = NOT (simpleUpdate (NOT 0) data)"

subsection \<open>document.go: records and value pointers\<close>

text \<open>Points into the document, directly at the value field.\<close>

record offsetAndLength =
  offset :: nat
  length' :: "32 word"

definition newDocument :: "byte list \<Rightarrow> byte list \<Rightarrow> byte list" where
  "newDocument k v =
     (let out = replicate 12 0;
          out = uint32ToBytes out 4 (of_nat (length k));
          out = uint32ToBytes out 8 (of_nat (length v));
          out = out @ k;
          out = out @ v;
          hash = Checksum (drop 4 out)
      in uint32ToBytes out 0 hash)"

definition getOAL :: "nat \<Rightarrow> byte list \<Rightarrow> byte list \<Rightarrow> offsetAndLength" where
  "getOAL pos k v = \<lparr>offset = pos + 12 + length k, length' = of_nat (length v)\<rparr>"

definition checkDocument :: "byte list \<Rightarrow> bool" where
  "checkDocument b = (let checksum = uint32FromBytes b 0 in checksum = Checksum (drop 4 b))"

subsection \<open>data.go: the handle\<close>

text \<open>
  The ways an operation ends other than by returning its result: a Go run-time panic
  (index or slice bounds out of range), a read of the mapping behind the end of the
  file, the error \<^verbatim>\<open>EINVAL\<close> that \<^verbatim>\<open>syscall.Mmap\<close> returns for a length of zero, and
  the error of \<^verbatim>\<open>OpenAndVerifyDB\<close>, which carries the position.
\<close>

datatype failure = Panic | PastEOF | EINVAL | Corruption nat

text \<open>
  The handle. \<open>datafile\<close> and \<open>keyfile\<close> are the contents of the files at
  \<^verbatim>\<open>d.location\<close> and \<^verbatim>\<open>d.location + ".keys"\<close>; \<open>filebufferLen\<close> is
  \<^verbatim>\<open>len(d.filebuffer)\<close>, the mapping itself shows \<open>datafile\<close>.
\<close>

record DB =
  kToPos :: "byte list \<rightharpoonup> offsetAndLength"
  filledSize :: nat
  filebufferLen :: nat
  datafile :: "byte list"
  keyfile :: "byte list"

text \<open>The two files at a location while no handle is open.\<close>

record files =
  fdata :: "byte list"
  fkeys :: "byte list"

text \<open>
  What \<^verbatim>\<open>f.Write(doc)\<close> did: it wrote everything, or it failed after some bytes of
  \<open>doc\<close> had reached the file.
\<close>

datatype write_result = WriteOK | WriteFailed nat

definition fileWrite :: "write_result \<Rightarrow> byte list \<Rightarrow> byte list \<Rightarrow> byte list" where
  "fileWrite w f doc = (case w of WriteOK \<Rightarrow> f @ doc | WriteFailed n \<Rightarrow> f @ take n doc)"

text \<open>
  \<^verbatim>\<open>mmap[lo:hi]\<close> of a mapping of length \<open>n\<close> over a file with contents \<open>f\<close>,
  and the read of all its bytes: Go checks \<open>hi\<close> against the length of the mapping,
  the file ends where it ends.
\<close>

definition mmapSlice :: "nat \<Rightarrow> byte list \<Rightarrow> nat \<Rightarrow> nat \<Rightarrow> failure + byte list" where
  "mmapSlice n f lo hi =
     (if n < hi then Inl Panic
      else if lo < hi \<and> length f < hi then Inl PastEOF
      else Inr (take (hi - lo) (drop lo f)))"

text \<open>\<^verbatim>\<open>uint32FromBytes(mmap, idx)\<close> on such a mapping.\<close>

definition mmapUint32 :: "nat \<Rightarrow> byte list \<Rightarrow> nat \<Rightarrow> failure + 32 word" where
  "mmapUint32 n f idx =
     (if n < idx + 4 then Inl Panic
      else if length f < idx + 4 then Inl PastEOF
      else Inr (uint32FromBytes f idx))"

definition makeFilebuf :: "nat \<Rightarrow> nat" where
  "makeFilebuf fLen = (if fLen < 4000000000 then 4000000000 else fLen * 2)"

definition NewDB :: "files \<Rightarrow> DB" where
  "NewDB fs =
     \<lparr>kToPos = Map.empty, filledSize = 0, filebufferLen = makeFilebuf 0,
      datafile = [], keyfile = fkeys fs\<rparr>"

subsection \<open>document.go: operations on the handle\<close>

definition getValAtOAL :: "DB \<Rightarrow> offsetAndLength \<Rightarrow> failure + byte list" where
  "getValAtOAL d oal =
     mmapSlice (filebufferLen d) (datafile d) (offset oal) (offset oal + unat (length' oal))"

definition Get :: "DB \<Rightarrow> byte list \<Rightarrow> failure + (byte list \<times> bool)" where
  "Get d k =
     (case kToPos d k of
        None \<Rightarrow> Inr ([], False)
      | Some oal \<Rightarrow> (case getValAtOAL d oal of Inl e \<Rightarrow> Inl e | Inr out \<Rightarrow> Inr (out, True)))"

definition Contains :: "DB \<Rightarrow> byte list \<Rightarrow> bool" where
  "Contains d k = (kToPos d k \<noteq> None)"

text \<open>\<^verbatim>\<open>Remove\<close> and \<^verbatim>\<open>Upsert\<close> return nothing; the result of the write is dropped.\<close>

definition Remove :: "write_result \<Rightarrow> DB \<Rightarrow> byte list \<Rightarrow> DB" where
  "Remove w d k =
     (let doc = newDocument k []
      in d\<lparr>kToPos := (kToPos d)(k := None), datafile := fileWrite w (datafile d) doc\<rparr>)"

definition Upsert :: "write_result \<Rightarrow> DB \<Rightarrow> byte list \<Rightarrow> byte list \<Rightarrow> DB" where
  "Upsert w d k v =
     (let doc = newDocument k v;
          m = (kToPos d)(k \<mapsto> getOAL (filledSize d) k v);
          f = fileWrite w (datafile d) doc;
          fs = filledSize d + length doc
      in d\<lparr>kToPos := m, datafile := f, filledSize := fs,
            filebufferLen := (if filebufferLen d < fs then filebufferLen d * 2 else filebufferLen d)\<rparr>)"

text \<open>
  The loop of \<^verbatim>\<open>Consolidate\<close> over the keys in the order \<open>ks\<close>; the state is the new
  index, the contents of the temporary file and \<open>pos\<close>.
\<close>

fun consolidateLoop ::
  "DB \<Rightarrow> byte list list \<Rightarrow> (byte list \<rightharpoonup> offsetAndLength) \<times> byte list \<times> nat \<Rightarrow>
   failure + ((byte list \<rightharpoonup> offsetAndLength) \<times> byte list \<times> nat)" where
  "consolidateLoop d [] st = Inr st"
| "consolidateLoop d (k # ks) (mNew, tmp, pos) =
     (case kToPos d k of
        None \<Rightarrow> consolidateLoop d ks (mNew, tmp, pos)
      | Some oal \<Rightarrow>
          (case getValAtOAL d oal of
             Inl e \<Rightarrow> Inl e
           | Inr v \<Rightarrow>
               (let doc = newDocument k v;
                    newOAL = getOAL pos k v
                in consolidateLoop d ks (mNew(k \<mapsto> newOAL), tmp @ doc, pos + length doc))))"

definition Consolidate :: "byte list list \<Rightarrow> DB \<Rightarrow> failure + DB" where
  "Consolidate ks d =
     (case consolidateLoop d ks (Map.empty, [], 0) of
        Inl e \<Rightarrow> Inl e
      | Inr (mNew, tmp, pos) \<Rightarrow>
          Inr (d\<lparr>kToPos := mNew, filledSize := pos,
                 filebufferLen := makeFilebuf (length tmp), datafile := tmp\<rparr>))"

subsection \<open>keyfile.go\<close>

text \<open>The bytes \<^verbatim>\<open>dumpKeys\<close> writes for one key.\<close>

definition keyEntry :: "byte list \<Rightarrow> offsetAndLength \<Rightarrow> byte list" where
  "keyEntry k v =
     (let buf = replicate 16 0;
          buf = uint32ToBytes buf 0 (of_nat (length k));
          buf = uint32ToBytes buf 4 (length' v);
          buf = uint64ToBytes buf 8 (of_nat (offset v))
      in buf @ k)"

text \<open>The key file is opened with \<^verbatim>\<open>O_APPEND\<close> and without \<^verbatim>\<open>O_TRUNC\<close>.\<close>

fun dumpKeys :: "(byte list \<rightharpoonup> offsetAndLength) \<Rightarrow> byte list list \<Rightarrow> byte list \<Rightarrow> byte list" where
  "dumpKeys m [] kf = kf"
| "dumpKeys m (k # ks) kf =
     (case m k of None \<Rightarrow> dumpKeys m ks kf | Some v \<Rightarrow> dumpKeys m ks (kf @ keyEntry k v))"

function populateLoop ::
  "byte list \<Rightarrow> nat \<Rightarrow> (byte list \<rightharpoonup> offsetAndLength) \<Rightarrow> failure + (byte list \<rightharpoonup> offsetAndLength)" where
  "populateLoop mmap pos m =
     (if pos < length mmap then
        if length mmap < pos + 16 then Inl Panic
        else
          (let kLen = uint32FromBytes mmap pos;
               vLen = uint32FromBytes mmap (pos + 4);
               vPos = uint64FromBytes mmap (pos + 8)
           in if length mmap < pos + 16 + unat kLen then Inl Panic
              else
                (let k = take (unat kLen) (drop (pos + 16) mmap)
                 in populateLoop mmap (pos + 16 + unat kLen)
                      (m(k \<mapsto> \<lparr>offset = unat vPos, length' = vLen\<rparr>))))
      else Inr m)"
  by pat_completeness auto
termination
  by (relation "measure (\<lambda>(mmap, pos, m). length mmap - pos)") auto

text \<open>\<^verbatim>\<open>syscall.Mmap\<close> refuses a length of zero with \<^verbatim>\<open>EINVAL\<close>.\<close>

definition populateKeys :: "byte list \<Rightarrow> failure + (byte list \<rightharpoonup> offsetAndLength)" where
  "populateKeys kf = (if length kf = 0 then Inl EINVAL else populateLoop kf 0 Map.empty)"

subsection \<open>data.go: opening and closing\<close>

definition OpenDB :: "files \<Rightarrow> failure + DB" where
  "OpenDB fs =
     (let pos = length (fdata fs);
          n = makeFilebuf (length (fdata fs))
      in case populateKeys (fkeys fs) of
           Inl e \<Rightarrow> Inl e
         | Inr m \<Rightarrow>
             Inr \<lparr>kToPos = m, filledSize = pos, filebufferLen = n,
                  datafile = fdata fs, keyfile = fkeys fs\<rparr>)"

text \<open>
  The loop of \<^verbatim>\<open>OpenAndVerifyDB\<close> over a mapping of length \<open>n\<close> on the file \<open>f\<close>.
  It returns the index, the position and the error, if any.
\<close>

function verifyLoop ::
  "nat \<Rightarrow> byte list \<Rightarrow> nat \<Rightarrow> (byte list \<rightharpoonup> offsetAndLength) \<Rightarrow>
   failure + ((byte list \<rightharpoonup> offsetAndLength) \<times> nat \<times> failure option)" where
  "verifyLoop n f pos m =
     (if pos < length f then
        (case mmapUint32 n f (pos + 4) of
           Inl e \<Rightarrow> Inl e
         | Inr kLen \<Rightarrow>
        (case mmapUint32 n f (pos + 8) of
           Inl e \<Rightarrow> Inl e
         | Inr vLen \<Rightarrow>
        if n < pos + 12 + unat kLen then Inl Panic
        else
        (case mmapSlice n f pos (pos + 12 + unat kLen + unat vLen) of
           Inl e \<Rightarrow> Inl e
         | Inr doc \<Rightarrow>
             if checkDocument doc then
               (let k = take (unat kLen) (drop (pos + 12) f)
                in verifyLoop n f (pos + 12 + unat kLen + unat vLen)
                     (if 0 < vLen
                      then m(k \<mapsto> \<lparr>offset = pos + 12 + unat kLen, length' = vLen\<rparr>)
                      else m(k := None)))
             else Inr (m, pos, Some (Corruption pos)))))
      else Inr (m, pos, None))"
  by pat_completeness auto
termination
  by (relation "measure (\<lambda>(n, f, pos, m). length f - pos)") auto

definition OpenAndVerifyDB :: "files \<Rightarrow> failure + (DB \<times> failure option)" where
  "OpenAndVerifyDB fs =
     (let fLen = length (fdata fs);
          n = makeFilebuf fLen
      in case verifyLoop n (fdata fs) 0 Map.empty of
           Inl e \<Rightarrow> Inl e
         | Inr (m, pos, e) \<Rightarrow>
             Inr (\<lparr>kToPos = m, filledSize = pos, filebufferLen = n,
                   datafile = fdata fs, keyfile = fkeys fs\<rparr>, e))"

text \<open>\<^verbatim>\<open>Close\<close> dumps the keys in the order \<open>ks\<close> and leaves the two files behind.\<close>

definition Close :: "byte list list \<Rightarrow> DB \<Rightarrow> files" where
  "Close ks d = \<lparr>fdata = datafile d, fkeys = dumpKeys (kToPos d) ks (keyfile d)\<rparr>"

subsection \<open>Notions of the specification\<close>

text \<open>
  The number that a byte string denotes as an unsigned little-endian integer: the first
  byte counts once, each later byte 256 times as much as the one before it.
\<close>

fun littleEndian :: "byte list \<Rightarrow> nat" where
  "littleEndian [] = 0"
| "littleEndian (b # bs) = unat b + 256 * littleEndian bs"

text \<open>
  The four and the eight bytes of a word, lowest byte first, and the part of a record
  that its checksum covers: the two length fields, the key and the value.
\<close>

definition le32 :: "32 word \<Rightarrow> byte list" where
  "le32 w = [ucast w, ucast (drop_bit 8 w), ucast (drop_bit 16 w), ucast (drop_bit 24 w)]"

definition le64 :: "64 word \<Rightarrow> byte list" where
  "le64 w =
     [ucast w, ucast (drop_bit 8 w), ucast (drop_bit 16 w), ucast (drop_bit 24 w),
      ucast (drop_bit 32 w), ucast (drop_bit 40 w), ucast (drop_bit 48 w), ucast (drop_bit 56 w)]"

definition body :: "byte list \<Rightarrow> byte list \<Rightarrow> byte list" where
  "body k v = le32 (of_nat (length k)) @ le32 (of_nat (length v)) @ k @ v"

text \<open>The value a handle shows for a key (empty where \<open>Get\<close> has none).\<close>

definition valOf :: "DB \<Rightarrow> byte list \<Rightarrow> byte list" where
  "valOf d k = (case Get d k of Inr (v, b) \<Rightarrow> v | Inl e \<Rightarrow> [])"

subsection \<open>Concrete handles\<close>

text \<open>
  A location with no files yet, and the handle after \<^verbatim>\<open>Upsert("a", "x")\<close> and
  \<^verbatim>\<open>Upsert("b", "yz")\<close> on a new database there. Keys and values are written as
  their bytes: \<open>97\<close> is \<^verbatim>\<open>a\<close>, \<open>98\<close> is \<^verbatim>\<open>b\<close>, \<open>120\<close> is \<^verbatim>\<open>x\<close>.
\<close>

definition emptyFiles :: files where
  "emptyFiles = \<lparr>fdata = [], fkeys = []\<rparr>"


text \<open>
  The handle that \<^verbatim>\<open>OpenDB\<close> returns after \<^verbatim>\<open>Upsert("a", "x")\<close> and \<^verbatim>\<open>Close\<close> on a
  new database.
\<close>

definition oneKey :: DB where
  "oneKey =
     \<lparr>kToPos = [[97] \<mapsto> \<lparr>offset = 13, length' = 1\<rparr>], filledSize = 14,
      filebufferLen = 4000000000, datafile = newDocument [97] [120],
      keyfile = keyEntry [97] \<lparr>offset = 13, length' = 1\<rparr>\<rparr>"

text \<open>
  The keys and values of the repository's test (\<^verbatim>\<open>bitcesque_test.go\<close>), as ASCII
  bytes, and the handles after its first three and after its next three calls.
\<close>

definition Tom :: "byte list" where "Tom = [84, 111, 109]"
definition Dick :: "byte list" where "Dick = [68, 105, 99, 107]"
definition Harry :: "byte list" where "Harry = [72, 97, 114, 114, 121]"
definition Washington :: "byte list" where "Washington = [87, 97, 115, 104, 105, 110, 103, 116, 111, 110]"
definition Oregon :: "byte list" where "Oregon = [79, 114, 101, 103, 111, 110]"
definition Wisconsin :: "byte list" where "Wisconsin = [87, 105, 115, 99, 111, 110, 115, 105, 110]"
definition NewYork :: "byte list" where "NewYork = [78, 101, 119, 32, 89, 111, 114, 107]"
definition Florida :: "byte list" where "Florida = [70, 108, 111, 114, 105, 100, 97]"

definition threeKeys :: DB where
  "threeKeys =
     Upsert WriteOK (Upsert WriteOK (Upsert WriteOK (NewDB emptyFiles) Tom Washington) Dick Oregon)
       Harry Wisconsin"

definition updated :: DB where
  "updated = Remove WriteOK (Upsert WriteOK (Upsert WriteOK threeKeys Tom NewYork) Dick Florida) Harry"

subsection \<open>Records in a file\<close>

text \<open>
  A record as a byte string: the key and value lengths its header gives, its key, and
  whether its length is the one the header gives (12 bytes of header, the key, the value).
\<close>

definition recKLen :: "byte list \<Rightarrow> nat" where
  "recKLen r = unat (uint32FromBytes r 4)"

definition recVLen :: "byte list \<Rightarrow> nat" where
  "recVLen r = unat (uint32FromBytes r 8)"

definition recKey :: "byte list \<Rightarrow> byte list" where
  "recKey r = take (recKLen r) (drop 12 r)"

definition framed :: "byte list \<Rightarrow> bool" where
  "framed r \<longleftrightarrow> 12 \<le> length r \<and> length r = 12 + recKLen r + recVLen r"

text \<open>
  The index that a sequence of records describes when the first of them starts at
  \<open>pos\<close>: a record with a value sets the pointer of its key, replacing an earlier one;
  a record with value length zero, a tombstone, deletes its key.
\<close>

fun replay ::
  "nat \<Rightarrow> byte list list \<Rightarrow> (byte list \<rightharpoonup> offsetAndLength) \<Rightarrow> (byte list \<rightharpoonup> offsetAndLength)" where
  "replay pos [] m = m"
| "replay pos (r # rs) m =
     replay (pos + length r) rs
       (if 0 < recVLen r
        then m(recKey r \<mapsto> \<lparr>offset = pos + 12 + recKLen r, length' = uint32FromBytes r 8\<rparr>)
        else m(recKey r := None))"



section \<open>The record codec\<close>

subsection \<open>The check value of CRC-32C\<close>

text \<open>
  The checksum of the ASCII digits \<^verbatim>\<open>123456789\<close> is \<open>0xE3069283\<close>, the published
  check value of CRC-32C.
\<close>

lemma crc_steps:
  "simpleUpdate 4294967295 [49] = 1862952476"
  "simpleUpdate 1862952476 [50] = 2359966623"
  "simpleUpdate 2359966623 [51] = 4018458701"
  "simpleUpdate 4018458701 [52] = 163908369"
  "simpleUpdate 163908369 [53] = 3878608074"
  "simpleUpdate 3878608074 [54] = 3200945785"
  "simpleUpdate 3200945785 [55] = 3988613141"
  "simpleUpdate 3988613141 [56] = 2675474277"
  "simpleUpdate 2675474277 [57] = 486108540"
  by code_simp+

lemma simpleUpdate_Cons: "simpleUpdate crc (v # p) = simpleUpdate (simpleUpdate crc [v]) p"
  by simp

lemma Checksum_check_value: "Checksum [49, 50, 51, 52, 53, 54, 55, 56, 57] = 0xE3069283"
proof -
  have "(NOT 0 :: 32 word) = 4294967295" by simp
  then have "simpleUpdate (NOT 0) [49, 50, 51, 52, 53, 54, 55, 56, 57] = 486108540"
    by (simp only: simpleUpdate_Cons [of _ _ "_ # _"] crc_steps)
  moreover have "NOT (486108540 :: 32 word) = 0xE3069283" by simp
  ultimately show ?thesis by (simp only: Checksum_def)
qed

subsection \<open>Little-endian fields and the layout of a record\<close>

lemma ucast_and_ff32: "(ucast ((w :: 32 word) AND 0xff) :: byte) = ucast w"
proof -
  have "(0xff :: 32 word) = mask 8" by (simp add: mask_eq_exp_minus_1)
  then show ?thesis by (simp add: bit_eq_iff bit_simps)
qed

lemma length_le32 [simp]: "length (le32 w) = 4"
  by (simp add: le32_def)

lemma uint32ToBytes_le32:
  assumes "length pre = idx" and "length old = 4"
  shows "uint32ToBytes (pre @ old @ post) idx w = pre @ le32 w @ post"
proof -
  from assms(2) obtain a b c d where old: "old = [a, b, c, d]"
    by (cases old; simp; rename_tac x xs; case_tac xs; simp;
        rename_tac y ys; case_tac ys; simp; rename_tac z zs; case_tac zs; simp)
  show ?thesis
    using assms(1)
    by (simp add: old uint32ToBytes_def le32_def ucast_and_ff32 list_update_append)
qed

lemma le32_bits:
  "ucast (ucast w :: byte) OR push_bit 8 (ucast (ucast (drop_bit 8 w) :: byte)) OR
   push_bit 16 (ucast (ucast (drop_bit 16 w) :: byte)) OR
   push_bit 24 (ucast (ucast (drop_bit 24 w) :: byte)) = (w :: 32 word)"
  (is "?L = w")
proof (rule bit_word_eqI)
  fix n :: nat
  assume "n < LENGTH(32)"
  then have n: "n < 32" by simp
  consider "n < 8" | "8 \<le> n" "n < 16" | "16 \<le> n" "n < 24" | "24 \<le> n"
    by linarith
  then show "bit ?L n = bit w n"
    using n by cases (auto simp add: bit_simps)
qed

lemma uint32FromBytes_le32:
  "length pre = idx \<Longrightarrow> uint32FromBytes (pre @ le32 w @ post) idx = w"
  using le32_bits [of w] by (simp add: uint32FromBytes_def le32_def nth_append)

lemma le_digits:
  fixes n :: nat
  assumes "n < 2 ^ 32"
  shows "n mod 256 + 256 * (n div 256 mod 256 + 256 * (n div 65536 mod 256 +
           256 * (n div 16777216 mod 256))) = n"
proof -
  have a: "n div 16777216 mod 256 = n div 16777216" using assms by simp
  have "n div 16777216 = n div 65536 div 256" by (simp add: div_mult2_eq [symmetric])
  then have b: "n div 65536 mod 256 + 256 * (n div 16777216) = n div 65536" by simp
  have "n div 65536 = n div 256 div 256" by (simp add: div_mult2_eq [symmetric])
  then have c: "n div 256 mod 256 + 256 * (n div 65536) = n div 256" by simp
  show ?thesis by (simp only: a b c mod_mult_div_eq)
qed

lemma unat_byte_of:
  "unat (ucast (drop_bit j (w :: 32 word)) :: byte) = unat w div 2 ^ j mod 256"
  by (simp add: unsigned_ucast_eq unat_drop_bit_eq take_bit_eq_mod) (simp add: drop_bit_eq_div)

lemma littleEndian_le32: "littleEndian (le32 w) = unat w"
proof -
  have "unat w < 2 ^ 32" using unsigned_less [of w] by simp
  then show ?thesis
    using le_digits [of "unat w"] unat_byte_of [of 0 w] unat_byte_of [of 8 w]
      unat_byte_of [of 16 w] unat_byte_of [of 24 w]
    by (simp add: le32_def)
qed

lemma newDocument_layout: "newDocument k v = le32 (Checksum (body k v)) @ body k v"
proof -
  let ?z = "replicate 4 (0 :: byte)"
  let ?kl = "of_nat (length k) :: 32 word"
  let ?vl = "of_nat (length v) :: 32 word"
  have z: "replicate 12 (0 :: byte) = ?z @ ?z @ ?z"
    by (simp add: replicate_add [symmetric])
  have s1: "uint32ToBytes (?z @ ?z @ ?z) 4 ?kl = ?z @ le32 ?kl @ ?z"
    by (rule uint32ToBytes_le32) simp_all
  have s2: "uint32ToBytes (?z @ le32 ?kl @ ?z) 8 ?vl = ?z @ le32 ?kl @ le32 ?vl"
    using uint32ToBytes_le32 [of "?z @ le32 ?kl" 8 ?z "[]" ?vl] by simp
  have s3: "uint32ToBytes (?z @ body k v) 0 h = le32 h @ body k v" for h
    using uint32ToBytes_le32 [of "[]" 0 ?z "body k v" h] by simp
  show ?thesis
    by (simp add: newDocument_def Let_def z s1 s2 s3 [unfolded body_def] body_def)
qed

lemma length_body [simp]: "length (body k v) = 8 + length k + length v"
  by (simp add: body_def)

lemma length_newDocument [simp]: "length (newDocument k v) = 12 + length k + length v"
  by (simp add: newDocument_layout)

lemma checkDocument_le32: "checkDocument (le32 h @ b) \<longleftrightarrow> h = Checksum b"
  using uint32FromBytes_le32 [of "[]" 0 h b] by (simp add: checkDocument_def)

lemma checkDocument_newDocument: "checkDocument (newDocument k v)"
  by (simp add: newDocument_layout checkDocument_le32)

lemma uint32FromBytes_take4:
  assumes "4 \<le> length b"
  shows "b = le32 (uint32FromBytes b 0) @ drop 4 b"
proof -
  from assms obtain a0 a1 a2 a3 r where b: "b = a0 # a1 # a2 # a3 # r"
    by (cases b; simp; rename_tac x xs; case_tac xs; simp;
        rename_tac y ys; case_tac ys; simp; rename_tac z zs; case_tac zs; simp)
  have "ucast (ucast a0 OR push_bit 8 (ucast a1) OR push_bit 16 (ucast a2) OR
          push_bit 24 (ucast a3) :: 32 word) = a0"
    by (rule bit_word_eqI) (auto simp add: bit_simps)
  moreover have "ucast (drop_bit 8 (ucast a0 OR push_bit 8 (ucast a1) OR push_bit 16 (ucast a2) OR
          push_bit 24 (ucast a3) :: 32 word)) = a1"
    by (rule bit_word_eqI) (auto simp add: bit_simps dest: bit_imp_le_length)
  moreover have "ucast (drop_bit 16 (ucast a0 OR push_bit 8 (ucast a1) OR push_bit 16 (ucast a2) OR
          push_bit 24 (ucast a3) :: 32 word)) = a2"
    by (rule bit_word_eqI) (auto simp add: bit_simps dest: bit_imp_le_length)
  moreover have "ucast (drop_bit 24 (ucast a0 OR push_bit 8 (ucast a1) OR push_bit 16 (ucast a2) OR
          push_bit 24 (ucast a3) :: 32 word)) = a3"
    by (rule bit_word_eqI) (auto simp add: bit_simps dest: bit_imp_le_length)
  ultimately show ?thesis
    by (simp add: b uint32FromBytes_def le32_def)
qed

text \<open>
  Claim C9. For all byte strings \<open>k\<close> and \<open>v\<close> the record \<open>newDocument k v\<close> has
  \<open>12 + |k| + |v|\<close> bytes: four bytes that hold, little-endian, the checksum of all the
  bytes behind them, four bytes that hold the key length and four that hold the value
  length, both little-endian (a 32-bit field: the length modulo \<open>2 ^ 32\<close>, which is the
  length itself for every length that fits the field), then the key and the value. The
  record satisfies \<open>checkDocument\<close>, and any byte string of at least four bytes
  satisfies \<open>checkDocument\<close> exactly when the little-endian number in its first four
  bytes is the CRC-32C of the bytes from offset 4 to the end.
\<close>

theorem newDocument_record:
  "length (newDocument k v) = 12 + length k + length v
   \<and> littleEndian (take 4 (newDocument k v)) = unat (Checksum (drop 4 (newDocument k v)))
   \<and> littleEndian (take 4 (drop 4 (newDocument k v))) = length k mod 2 ^ 32
   \<and> littleEndian (take 4 (drop 8 (newDocument k v))) = length v mod 2 ^ 32
   \<and> take (length k) (drop 12 (newDocument k v)) = k
   \<and> drop (12 + length k) (newDocument k v) = v
   \<and> checkDocument (newDocument k v)
   \<and> (4 \<le> length b \<longrightarrow>
        (checkDocument b \<longleftrightarrow> littleEndian (take 4 b) = unat (Checksum (drop 4 b))))"
proof -
  have l: "littleEndian (take 4 (newDocument k v)) = unat (Checksum (drop 4 (newDocument k v)))"
    by (simp add: newDocument_layout littleEndian_le32)
  have kl: "littleEndian (take 4 (drop 4 (newDocument k v))) = length k mod 2 ^ 32"
    by (simp add: newDocument_layout body_def littleEndian_le32 unat_of_nat)
  have vl: "littleEndian (take 4 (drop 8 (newDocument k v))) = length v mod 2 ^ 32"
    by (simp add: newDocument_layout body_def littleEndian_le32 unat_of_nat)
  have kk: "take (length k) (drop 12 (newDocument k v)) = k"
    by (simp add: newDocument_layout body_def)
  have vv: "drop (12 + length k) (newDocument k v) = v"
    by (simp add: newDocument_layout body_def)
  have ch: "checkDocument b \<longleftrightarrow> littleEndian (take 4 b) = unat (Checksum (drop 4 b))"
    if "4 \<le> length b"
  proof -
    from that have b: "b = le32 (uint32FromBytes b 0) @ drop 4 b"
      by (rule uint32FromBytes_take4)
    have "littleEndian (take 4 b) = unat (uint32FromBytes b 0)"
      by (subst b) (simp add: littleEndian_le32)
    then show ?thesis
      by (simp add: checkDocument_def word_unat_eq_iff)
  qed
  show ?thesis
    using l kl vl kk vv ch checkDocument_newDocument by simp
qed

theorem newDocument_record_witness:
  "length (newDocument [97] [120]) = 14
   \<and> checkDocument (newDocument [97] [120])
   \<and> 4 \<le> length [1, 2, 3, 4, 5 :: byte]
   \<and> (checkDocument [1, 2, 3, 4, 5] \<longleftrightarrow> littleEndian [1, 2, 3, 4] = unat (Checksum [5]))"
  using newDocument_record [of "[97]" "[120]" "[1, 2, 3, 4, 5]"] by simp

section \<open>The handle: simplification rules\<close>

lemma NewDB_simps [simp]:
  "kToPos (NewDB fs) = Map.empty" "filledSize (NewDB fs) = 0"
  "filebufferLen (NewDB fs) = 4000000000" "datafile (NewDB fs) = []" "keyfile (NewDB fs) = fkeys fs"
  by (simp_all add: NewDB_def makeFilebuf_def)

lemma Remove_simps [simp]:
  "kToPos (Remove w d k) = (kToPos d)(k := None)"
  "filledSize (Remove w d k) = filledSize d"
  "filebufferLen (Remove w d k) = filebufferLen d"
  "datafile (Remove w d k) = fileWrite w (datafile d) (newDocument k [])"
  "keyfile (Remove w d k) = keyfile d"
  by (simp_all add: Remove_def)

lemma Upsert_simps [simp]:
  "kToPos (Upsert w d k v) = (kToPos d)(k \<mapsto> getOAL (filledSize d) k v)"
  "filledSize (Upsert w d k v) = filledSize d + (12 + length k + length v)"
  "filebufferLen (Upsert w d k v) =
     (if filebufferLen d < filledSize d + (12 + length k + length v)
      then filebufferLen d * 2 else filebufferLen d)"
  "datafile (Upsert w d k v) = fileWrite w (datafile d) (newDocument k v)"
  "keyfile (Upsert w d k v) = keyfile d"
  by (simp_all add: Upsert_def Let_def)

lemma fileWrite_simps [simp]:
  "fileWrite WriteOK f doc = f @ doc"
  "fileWrite (WriteFailed n) f doc = f @ take n doc"
  by (simp_all add: fileWrite_def)

section \<open>Consolidation\<close>

lemma mmapSlice_length: "mmapSlice n f lo hi = Inr v \<Longrightarrow> lo \<le> hi \<Longrightarrow> length v = hi - lo"
  by (auto simp: mmapSlice_def split: if_splits)

lemma getValAtOAL_length: "getValAtOAL d oal = Inr v \<Longrightarrow> length v = unat (length' oal)"
  by (auto simp: getValAtOAL_def dest: mmapSlice_length)

lemma getValAtOAL_of_nat:
  "getValAtOAL d oal = Inr v \<Longrightarrow> (of_nat (length v) :: 32 word) = length' oal"
  by (simp add: getValAtOAL_length)


lemma drop_newDocument: "drop (12 + length k) (newDocument k v) = v"
  by (simp add: newDocument_layout body_def)

lemma consolidateLoop_inv:
  assumes "distinct ks" and "set ks \<subseteq> dom (kToPos d)"
    and "\<forall>k oal. kToPos d k = Some oal \<longrightarrow> (\<exists>v. getValAtOAL d oal = Inr v)"
  shows "\<exists>m' tmp'.
     consolidateLoop d ks (m, tmp, length tmp) = Inr (m', tmp @ tmp', length tmp + length tmp')
     \<and> tmp' = concat (map (\<lambda>k. newDocument k (valOf d k)) ks)
     \<and> (\<forall>k. k \<notin> set ks \<longrightarrow> m' k = m k)
     \<and> (\<forall>k \<in> set ks. \<exists>off. m' k = Some \<lparr>offset = off, length' = of_nat (length (valOf d k))\<rparr>
            \<and> off + length (valOf d k) \<le> length (tmp @ tmp')
            \<and> take (length (valOf d k)) (drop off (tmp @ tmp')) = valOf d k)"
  using assms(1,2)
proof (induction ks arbitrary: m tmp)
  case Nil
  then show ?case by simp
next
  case (Cons k ks)
  from Cons.prems obtain oal where oal: "kToPos d k = Some oal" by auto
  with assms(3) obtain v where v: "getValAtOAL d oal = Inr v" by blast
  have vk: "valOf d k = v" by (simp add: valOf_def Get_def oal v)
  let ?doc = "newDocument k v"
  let ?m1 = "m(k \<mapsto> getOAL (length tmp) k v)"
  from Cons.prems have d: "distinct ks" and s: "set ks \<subseteq> dom (kToPos d)" and kn: "k \<notin> set ks"
    by auto
  from Cons.IH [OF d s, of ?m1 "tmp @ ?doc"]
  obtain m' tmp' where
    r: "consolidateLoop d ks (?m1, tmp @ ?doc, length (tmp @ ?doc)) =
          Inr (m', (tmp @ ?doc) @ tmp', length (tmp @ ?doc) + length tmp')"
    and t: "tmp' = concat (map (\<lambda>k. newDocument k (valOf d k)) ks)"
    and o: "\<forall>j. j \<notin> set ks \<longrightarrow> m' j = ?m1 j"
    and i: "\<forall>j \<in> set ks. \<exists>off. m' j = Some \<lparr>offset = off, length' = of_nat (length (valOf d j))\<rparr>
            \<and> off + length (valOf d j) \<le> length ((tmp @ ?doc) @ tmp')
            \<and> take (length (valOf d j)) (drop off ((tmp @ ?doc) @ tmp')) = valOf d j"
    by blast
  have step: "consolidateLoop d (k # ks) (m, tmp, length tmp) =
      consolidateLoop d ks (?m1, tmp @ ?doc, length (tmp @ ?doc))"
    by (simp add: oal v Let_def)
  have mk: "m' k = Some \<lparr>offset = length tmp + 12 + length k, length' = of_nat (length v)\<rparr>"
    using o kn by (simp add: getOAL_def)
  have tk: "take (length v) (drop (length tmp + 12 + length k) (tmp @ ?doc @ tmp')) = v"
    using drop_newDocument [of k v] by (simp add: add.assoc)
  show ?case
  proof (intro exI conjI)
    show "consolidateLoop d (k # ks) (m, tmp, length tmp) =
       Inr (m', tmp @ (?doc @ tmp'), length tmp + length (?doc @ tmp'))"
      using step r by (simp add: add.assoc)
    show "?doc @ tmp' = concat (map (\<lambda>k. newDocument k (valOf d k)) (k # ks))"
      by (simp add: t vk)
    show "\<forall>j. j \<notin> set (k # ks) \<longrightarrow> m' j = m j"
      using o by simp
    show "\<forall>j \<in> set (k # ks). \<exists>off. m' j = Some \<lparr>offset = off, length' = of_nat (length (valOf d j))\<rparr>
            \<and> off + length (valOf d j) \<le> length (tmp @ ?doc @ tmp')
            \<and> take (length (valOf d j)) (drop off (tmp @ ?doc @ tmp')) = valOf d j"
    proof
      fix j assume "j \<in> set (k # ks)"
      then consider "j = k" | "j \<in> set ks" by auto
      then show "\<exists>off. m' j = Some \<lparr>offset = off, length' = of_nat (length (valOf d j))\<rparr>
            \<and> off + length (valOf d j) \<le> length (tmp @ ?doc @ tmp')
            \<and> take (length (valOf d j)) (drop off (tmp @ ?doc @ tmp')) = valOf d j"
      proof cases
        case 1
        show ?thesis
          using mk tk by (intro exI [of _ "length tmp + 12 + length k"]) (simp add: 1 vk)
      next
        case 2
        with i show ?thesis by simp
      qed
    qed
  qed
qed


lemma Consolidate_result:
  assumes "distinct ks" and "set ks = dom (kToPos d)"
    and "\<forall>k oal. kToPos d k = Some oal \<longrightarrow> (\<exists>v. getValAtOAL d oal = Inr v)"
  shows "\<exists>m'. Consolidate ks d =
           Inr (d\<lparr>kToPos := m', filledSize := length (concat (map (\<lambda>k. newDocument k (valOf d k)) ks)),
                  filebufferLen := makeFilebuf (length (concat (map (\<lambda>k. newDocument k (valOf d k)) ks))),
                  datafile := concat (map (\<lambda>k. newDocument k (valOf d k)) ks)\<rparr>)
     \<and> (\<forall>k. k \<notin> set ks \<longrightarrow> m' k = None)
     \<and> (\<forall>k \<in> set ks. \<exists>off. m' k = Some \<lparr>offset = off, length' = of_nat (length (valOf d k))\<rparr>
            \<and> off + length (valOf d k) \<le> length (concat (map (\<lambda>k. newDocument k (valOf d k)) ks))
            \<and> take (length (valOf d k)) (drop off (concat (map (\<lambda>k. newDocument k (valOf d k)) ks))) = valOf d k)"
proof -
  from assms(2) have sub: "set ks \<subseteq> dom (kToPos d)" by simp
  from consolidateLoop_inv [OF assms(1) sub assms(3), of Map.empty "[]"]
  obtain m' tmp' where
    r: "consolidateLoop d ks (Map.empty, [], 0) = Inr (m', tmp', length tmp')"
    and t: "tmp' = concat (map (\<lambda>k. newDocument k (valOf d k)) ks)"
    and o: "\<forall>k. k \<notin> set ks \<longrightarrow> m' k = None"
    and i: "\<forall>k \<in> set ks. \<exists>off. m' k = Some \<lparr>offset = off, length' = of_nat (length (valOf d k))\<rparr>
            \<and> off + length (valOf d k) \<le> length tmp'
            \<and> take (length (valOf d k)) (drop off tmp') = valOf d k"
    by auto
  show ?thesis
    using r o i unfolding t by (intro exI [of _ m']) (simp add: Consolidate_def)
qed

text \<open>
  Where \<open>Get\<close> fails for a key of the index, \<open>Consolidate\<close> fails as well: the
  condition of claim C3 is the one under which there is a handle afterwards.
\<close>

lemma consolidateLoop_unreadable:
  assumes "k \<in> set ks" and "kToPos d k = Some oal" and "getValAtOAL d oal = Inl e"
  shows "\<exists>e'. consolidateLoop d ks st = Inl e'"
  using assms(1)
proof (induction ks arbitrary: st)
  case Nil
  then show ?case by simp
next
  case (Cons j ks)
  obtain m tmp pos where st: "st = (m, tmp, pos)" by (cases st)
  show ?case
  proof (cases "j = k")
    case True
    then show ?thesis using assms(2,3) by (simp add: st)
  next
    case False
    with Cons.prems have "k \<in> set ks" by simp
    then show ?thesis
      using Cons.IH by (auto simp: st Let_def split: option.splits sum.splits)
  qed
qed

lemma Consolidate_unreadable:
  assumes "k \<in> set ks" and "Get d k = Inl e"
  shows "\<exists>e'. Consolidate ks d = Inl e'"
proof -
  from assms(2) obtain oal where "kToPos d k = Some oal" "getValAtOAL d oal = Inl e"
    by (auto simp: Get_def split: option.splits sum.splits)
  from consolidateLoop_unreadable [OF assms(1) this, of "(Map.empty, [], 0)"]
  show ?thesis by (auto simp: Consolidate_def)
qed




section \<open>Upsert, Remove and Get\<close>

text \<open>
  A handle is in step when its write position is the length of its data file. On such a
  handle \<open>Upsert\<close> followed by \<open>Get\<close> returns the value, and \<open>Upsert\<close> keeps the
  handle in step; \<open>Get\<close> after \<open>Remove\<close> always reports the key absent. \<open>Remove\<close>
  appends a record and leaves the write position where it was.
\<close>

lemma Remove_Get: "Get (Remove w d k) k = Inr ([], False)"
  by (simp add: Get_def)

lemma Upsert_Get_synced:
  assumes "filledSize d = length (datafile d)" and "length v < 2 ^ 32"
    and "filledSize d + (12 + length k + length v) \<le> 2 * filebufferLen d"
  shows "Get (Upsert WriteOK d k v) k = Inr (v, True)"
proof -
  have "unat (of_nat (length v) :: 32 word) = length v"
    using assms(2) by (simp add: unat_of_nat)
  then show ?thesis
    using assms(1,3) drop_newDocument [of k v]
    by (simp add: Get_def getOAL_def getValAtOAL_def mmapSlice_def add.assoc)
qed

lemma Upsert_synced:
  "filledSize d = length (datafile d) \<Longrightarrow>
   filledSize (Upsert WriteOK d k v) = length (datafile (Upsert WriteOK d k v))"
  by simp

lemma Remove_unsynced:
  "filledSize (Remove WriteOK d k) = filledSize d \<and>
   length (datafile (Remove WriteOK d k)) = length (datafile d) + 12 + length k"
  by simp

text \<open>
  Claim C1 says that \<open>Get k\<close> returns the value of the latest \<open>Upsert\<close> of \<open>k\<close> after
  every sequence of \<open>Upsert\<close> and \<open>Remove\<close>. The code does not do so once a \<open>Remove\<close>
  has run: on a new database, after \<^verbatim>\<open>Remove("a")\<close> and \<^verbatim>\<open>Upsert("b", "hello")\<close>,
  \<open>Get\<close> of \<^verbatim>\<open>b\<close> returns, as present, the first five bytes of the record of \<^verbatim>\<open>b\<close>
  (its checksum and the first byte of its key length), which are not \<^verbatim>\<open>hello\<close>.
\<close>

theorem Get_after_Remove_Upsert:
  "Get (Upsert WriteOK (Remove WriteOK (NewDB emptyFiles) [97]) [98] [104, 101, 108, 108, 111]) [98]
     = Inr (take 5 (newDocument [98] [104, 101, 108, 108, 111]), True)
   \<and> take 5 (newDocument [98] [104, 101, 108, 108, 111]) \<noteq> [104, 101, 108, 108, 111]"
  by (simp add: Get_def getOAL_def getValAtOAL_def mmapSlice_def newDocument_layout body_def le32_def)

text \<open>
  Claim C2 says that after every operation the write position is the length of the data
  file. The code breaks this in \<open>Remove\<close>: on a new database, after \<^verbatim>\<open>Remove("a")\<close>
  the data file has 13 bytes and the write position is still 0.
\<close>

theorem Remove_filledSize_lags:
  "filledSize (Remove WriteOK (NewDB emptyFiles) [97]) = 0
   \<and> length (datafile (Remove WriteOK (NewDB emptyFiles) [97])) = 13"
  by simp

text \<open>
  Claim C6 says that a failed append makes the operation fail with the index untouched.
  On the code it does not: on a new database, an \<^verbatim>\<open>Upsert("a", "x")\<close> whose write
  fails before any byte reaches the file leaves the data file as it was and still
  stores a pointer for \<^verbatim>\<open>a\<close> in the index, which had none.
\<close>

theorem Upsert_write_failed_counterexample:
  "kToPos (NewDB emptyFiles) [97] = None
   \<and> kToPos (Upsert (WriteFailed 0) (NewDB emptyFiles) [97] [120]) [97]
       = Some \<lparr>offset = 13, length' = 1\<rparr>
   \<and> datafile (Upsert (WriteFailed 0) (NewDB emptyFiles) [97] [120]) = datafile (NewDB emptyFiles)"
  by (simp add: getOAL_def)

text \<open>
  Claim C6 as amended. \<open>Upsert\<close> and \<open>Remove\<close> return nothing and do not look at the
  result of the append. When the append fails after \<open>n\<close> bytes, \<open>Upsert\<close> has stored
  the pointer for the key and advanced the write position by the size of the whole
  record, \<open>Remove\<close> has deleted the key from the index, and the data file has grown by
  the first \<open>n\<close> bytes of the record only.
\<close>

theorem write_failed_index_updated:
  "kToPos (Upsert (WriteFailed n) d k v) = (kToPos d)(k \<mapsto> getOAL (filledSize d) k v)
   \<and> filledSize (Upsert (WriteFailed n) d k v) = filledSize d + (12 + length k + length v)
   \<and> datafile (Upsert (WriteFailed n) d k v) = datafile d @ take n (newDocument k v)
   \<and> kToPos (Remove (WriteFailed n) d k) = (kToPos d)(k := None)
   \<and> filledSize (Remove (WriteFailed n) d k) = filledSize d
   \<and> datafile (Remove (WriteFailed n) d k) = datafile d @ take n (newDocument k [])"
  by simp

text \<open>
  Claim C7 says that the index never holds a pointer of length zero. The code stores
  one in \<open>Upsert\<close> with an empty value: on a new database, after \<^verbatim>\<open>Upsert("a", "")\<close>
  the index maps \<^verbatim>\<open>a\<close> to a pointer of length 0 and \<open>Get\<close> reports the key present,
  while the data file holds the very record that \<^verbatim>\<open>Remove("a")\<close> writes.
\<close>

theorem Upsert_empty_value_pointer:
  "kToPos (Upsert WriteOK (NewDB emptyFiles) [97] []) [97] = Some \<lparr>offset = 13, length' = 0\<rparr>
   \<and> Get (Upsert WriteOK (NewDB emptyFiles) [97] []) [97] = Inr ([], True)
   \<and> datafile (Upsert WriteOK (NewDB emptyFiles) [97] [])
       = datafile (Remove WriteOK (NewDB emptyFiles) [97])"
  by (simp add: Get_def getOAL_def getValAtOAL_def mmapSlice_def)

section \<open>The file after consolidation\<close>

text \<open>
  After \<open>Consolidate\<close> the data file is one record for each key of the index, in the
  order of the loop, each made from the key and the value the handle showed for it; the
  write position is the length of the file, the sum of \<open>12 + |k| + |v|\<close> over the keys.
\<close>

lemma Consolidate_synced:
  assumes "distinct ks" and "set ks = dom (kToPos d)"
    and "\<forall>k oal. kToPos d k = Some oal \<longrightarrow> (\<exists>v. getValAtOAL d oal = Inr v)"
  shows "\<exists>d'. Consolidate ks d = Inr d'
     \<and> datafile d' = concat (map (\<lambda>k. newDocument k (valOf d k)) ks)
     \<and> dom (kToPos d') = dom (kToPos d)
     \<and> filledSize d' = length (datafile d')
     \<and> length (datafile d') = (\<Sum>k\<leftarrow>ks. 12 + length k + length (valOf d k))"
proof -
  let ?f = "concat (map (\<lambda>k. newDocument k (valOf d k)) ks)"
  from Consolidate_result [OF assms] obtain m' where
    c: "Consolidate ks d = Inr (d\<lparr>kToPos := m', filledSize := length ?f,
          filebufferLen := makeFilebuf (length ?f), datafile := ?f\<rparr>)"
    and o: "\<forall>k. k \<notin> set ks \<longrightarrow> m' k = None"
    and i: "\<forall>k \<in> set ks. \<exists>off. m' k = Some \<lparr>offset = off, length' = of_nat (length (valOf d k))\<rparr>
            \<and> off + length (valOf d k) \<le> length ?f
            \<and> take (length (valOf d k)) (drop off ?f) = valOf d k"
    by blast
  have "dom m' = set ks"
    using o i by (auto simp: dom_def) 
  moreover have "length ?f = (\<Sum>k\<leftarrow>ks. 12 + length k + length (valOf d k))"
    by (simp add: length_concat comp_def)
  ultimately show ?thesis
    using c assms(2) by simp
qed

text \<open>
  Claim C8 says that the file after \<open>Consolidate\<close> holds one record for each live key
  and no tombstone. The length is as claimed (lemma \<open>Consolidate_synced\<close>), but a
  tombstone can remain: on a new database, after \<^verbatim>\<open>Upsert("a", "")\<close> the consolidated
  file is the single record that \<^verbatim>\<open>Remove("a")\<close> writes, with value length 0, and the
  index still holds \<^verbatim>\<open>a\<close>.
\<close>

theorem Consolidate_keeps_empty_value:
  "Consolidate [[97]] (Upsert WriteOK (NewDB emptyFiles) [97] []) =
     Inr \<lparr>kToPos = [[97] \<mapsto> \<lparr>offset = 13, length' = 0\<rparr>], filledSize = 13,
          filebufferLen = 4000000000, datafile = newDocument [97] [], keyfile = []\<rparr>
   \<and> newDocument [97] [] = datafile (Remove WriteOK (NewDB emptyFiles) [97])
   \<and> littleEndian (take 4 (drop 8 (newDocument [97] []))) = 0"
  by (simp add: Consolidate_def Get_def getOAL_def getValAtOAL_def mmapSlice_def makeFilebuf_def
      emptyFiles_def NewDB_def Upsert_def Let_def fileWrite_def newDocument_layout body_def
      littleEndian_le32)

section \<open>Opening with verification\<close>

declare verifyLoop.simps [simp del]

lemma uint32FromBytes_mid:
  "i + 4 \<le> length r \<Longrightarrow> uint32FromBytes (pre @ r @ post) (length pre + i) = uint32FromBytes r i"
  by (simp add: uint32FromBytes_def nth_append add.assoc)

lemma verifyLoop_step:
  assumes "framed r" and "checkDocument r" and "length (pre @ r @ post) \<le> n"
  shows "verifyLoop n (pre @ r @ post) (length pre) m =
         verifyLoop n (pre @ r @ post) (length pre + length r)
           (if 0 < recVLen r
            then m(recKey r \<mapsto> \<lparr>offset = length pre + 12 + recKLen r, length' = uint32FromBytes r 8\<rparr>)
            else m(recKey r := None))"
proof -
  let ?f = "pre @ r @ post"
  let ?kl = "uint32FromBytes r 4"
  let ?vl = "uint32FromBytes r 8"
  from assms(1) have l12: "12 \<le> length r" and len: "length r = 12 + unat ?kl + unat ?vl"
    by (simp_all add: framed_def recKLen_def recVLen_def)
  have p: "length pre < length ?f" using l12 by auto
  have k: "mmapUint32 n ?f (length pre + 4) = Inr ?kl"
    using l12 assms(3) uint32FromBytes_mid [of 4 r pre post] by (simp add: mmapUint32_def)
  have v: "mmapUint32 n ?f (length pre + 8) = Inr ?vl"
    using l12 assms(3) uint32FromBytes_mid [of 8 r pre post] by (simp add: mmapUint32_def)
  have e: "length pre + 12 + unat ?kl + unat ?vl = length pre + length r"
    using len by simp
  have s: "mmapSlice n ?f (length pre) (length pre + length r) = Inr r"
    using assms(3) by (simp add: mmapSlice_def)
  have b: "\<not> n < length pre + 12 + unat ?kl"
    using len assms(3) by simp
  have "drop (length pre + 12) ?f = drop 12 r @ post"
    using l12 by simp
  then have key: "take (unat ?kl) (drop (length pre + 12) ?f) = take (unat ?kl) (drop 12 r)"
    using len by simp
  have vl: "(0 < ?vl) = (0 < unat ?vl)"
    by (simp add: word_less_nat_alt)
  show ?thesis
    unfolding recKey_def recKLen_def recVLen_def
    by (subst verifyLoop.simps)
      (simp only: p k v e s b key vl assms(2) Let_def if_True if_False sum.case)
qed

lemma verifyLoop_records:
  assumes "\<forall>r \<in> set rs. framed r \<and> checkDocument r"
    and "length (pre @ concat rs @ post) \<le> n"
  shows "verifyLoop n (pre @ concat rs @ post) (length pre) m =
         verifyLoop n (pre @ concat rs @ post) (length pre + length (concat rs))
           (replay (length pre) rs m)"
  using assms
proof (induction rs arbitrary: pre m)
  case Nil
  then show ?case by simp
next
  case (Cons r rs)
  from Cons.prems have r: "framed r" "checkDocument r"
    and rs: "\<forall>r \<in> set rs. framed r \<and> checkDocument r"
    and n: "length (pre @ r @ (concat rs @ post)) \<le> n"
    by simp_all
  have n': "length ((pre @ r) @ concat rs @ post) \<le> n" using n by simp
  show ?case
    using verifyLoop_step [OF r n, of m] Cons.IH [OF rs n']
    by (simp add: add.assoc)
qed

lemma verifyLoop_end: "verifyLoop n f (length f) m = Inr (m, length f, None)"
  by (subst verifyLoop.simps) simp



lemma replay_append:
  "replay pos (rs @ rs') m = replay (pos + length (concat rs)) rs' (replay pos rs m)"
  by (induction rs arbitrary: pos m) (simp_all add: add.assoc)

lemma replay_last:
  "replay pos (rs @ [r]) m (recKey r) =
     (if 0 < recVLen r
      then Some \<lparr>offset = pos + length (concat rs) + 12 + recKLen r, length' = uint32FromBytes r 8\<rparr>
      else None)"
  by (simp add: replay_append)


lemma header_lengths:
  "uint32FromBytes (le32 h @ body k v) 4 = of_nat (length k)"
  "uint32FromBytes (le32 h @ body k v) 8 = of_nat (length v)"
proof -
  show "uint32FromBytes (le32 h @ body k v) 4 = of_nat (length k)"
    using uint32FromBytes_le32 [of "le32 h" 4 "of_nat (length k)" "le32 (of_nat (length v)) @ k @ v"]
    by (simp add: body_def)
  show "uint32FromBytes (le32 h @ body k v) 8 = of_nat (length v)"
    using uint32FromBytes_le32 [of "le32 h @ le32 (of_nat (length k))" 8 "of_nat (length v)" "k @ v"]
    by (simp add: body_def)
qed

lemma framed_le32_body:
  assumes "length k < 2 ^ 32" and "length v < 2 ^ 32"
  shows "framed (le32 h @ body k v)" 
    and "recKLen (le32 h @ body k v) = length k"
    and "recVLen (le32 h @ body k v) = length v"
    and "recKey (le32 h @ body k v) = k"
proof -
  show k: "recKLen (le32 h @ body k v) = length k"
    using assms(1) by (simp add: recKLen_def header_lengths unat_of_nat)
  show v: "recVLen (le32 h @ body k v) = length v"
    using assms(2) by (simp add: recVLen_def header_lengths unat_of_nat)
  show "framed (le32 h @ body k v)"
    by (simp add: framed_def k v)
  show "recKey (le32 h @ body k v) = k"
    by (simp add: recKey_def k) (simp add: body_def)
qed

lemmas framed_newDocument = framed_le32_body [where h = "Checksum (body k v)" and k = k and v = v for k v, folded newDocument_layout]



section \<open>Truncated files\<close>









section \<open>The key snapshot\<close>

text \<open>
  \<open>dumpKeys\<close> appends one entry for each key to whatever the key file holds, and
  \<open>populateKeys\<close> reads entries until the end of the file. On a location whose key
  file is empty at \<open>Close\<close>, and for a handle with at least one key, \<open>OpenDB\<close> gives
  back the index and the data file (lemma \<open>Close_OpenDB_fresh\<close>); with no key at all
  the key file stays empty and \<open>OpenDB\<close> fails (lemma \<open>Close_OpenDB_empty\<close>).
\<close>

declare populateLoop.simps [simp del]

lemma ucast_and_ff64: "(ucast ((w :: 64 word) AND 0xff) :: byte) = ucast w"
proof -
  have "(0xff :: 64 word) = mask 8" by (simp add: mask_eq_exp_minus_1)
  then show ?thesis by (simp add: bit_eq_iff bit_simps)
qed

lemma length_le64 [simp]: "length (le64 w) = 8"
  by (simp add: le64_def)

lemma uint64ToBytes_le64:
  assumes "length pre = idx"
  shows "uint64ToBytes (pre @ replicate 8 0 @ post) idx w = pre @ le64 w @ post"
proof -
  have r: "replicate 8 (0 :: byte) = [0, 0, 0, 0, 0, 0, 0, 0]"
    by (simp add: numeral_eq_Suc)
  show ?thesis
    using assms
    by (simp add: r uint64ToBytes_def le64_def ucast_and_ff64 list_update_append)
qed

lemma le64_bits:
  "ucast (ucast w :: byte) OR push_bit 8 (ucast (ucast (drop_bit 8 w) :: byte)) OR
   push_bit 16 (ucast (ucast (drop_bit 16 w) :: byte)) OR
   push_bit 24 (ucast (ucast (drop_bit 24 w) :: byte)) OR
   (push_bit 32 (ucast (ucast (drop_bit 32 w) :: byte)) OR
    push_bit 40 (ucast (ucast (drop_bit 40 w) :: byte)) OR
    push_bit 48 (ucast (ucast (drop_bit 48 w) :: byte)) OR
    push_bit 56 (ucast (ucast (drop_bit 56 w) :: byte))) = (w :: 64 word)"
  (is "?L = w")
proof (rule bit_word_eqI)
  fix n :: nat
  assume "n < LENGTH(64)"
  then have n: "n < 64" by simp
  consider "n < 8" | "8 \<le> n" "n < 16" | "16 \<le> n" "n < 24" | "24 \<le> n" "n < 32"
    | "32 \<le> n" "n < 40" | "40 \<le> n" "n < 48" | "48 \<le> n" "n < 56" | "56 \<le> n"
    by linarith
  then show "bit ?L n = bit w n"
    using n by cases (auto simp add: bit_simps)
qed

lemma uint64FromBytes_le64:
  "length pre = idx \<Longrightarrow> uint64FromBytes (pre @ le64 w @ post) idx = w"
  using le64_bits [of w] by (simp add: uint64FromBytes_def le64_def nth_append Let_def or.assoc)

lemma keyEntry_layout:
  "keyEntry k v = le32 (of_nat (length k)) @ le32 (length' v) @ le64 (of_nat (offset v)) @ k"
proof -
  let ?z = "replicate 4 (0 :: byte)"
  let ?z8 = "replicate 8 (0 :: byte)"
  let ?kl = "of_nat (length k) :: 32 word"
  have z: "replicate 16 (0 :: byte) = ?z @ ?z @ ?z8"
    by (simp add: replicate_add [symmetric])
  have s1: "uint32ToBytes (?z @ ?z @ ?z8) 0 ?kl = le32 ?kl @ ?z @ ?z8"
    using uint32ToBytes_le32 [of "[]" 0 ?z "?z @ ?z8" ?kl] by simp
  have s2: "uint32ToBytes (le32 ?kl @ ?z @ ?z8) 4 (length' v) = le32 ?kl @ le32 (length' v) @ ?z8"
    by (rule uint32ToBytes_le32) simp_all
  have s3: "uint64ToBytes (le32 ?kl @ le32 (length' v) @ ?z8) 8 (of_nat (offset v)) =
            le32 ?kl @ le32 (length' v) @ le64 (of_nat (offset v))"
    using uint64ToBytes_le64 [of "le32 ?kl @ le32 (length' v)" 8 "[]" "of_nat (offset v)"] by simp
  show ?thesis
    by (simp add: keyEntry_def Let_def z s1 s2 s3)
qed

lemma length_keyEntry [simp]: "length (keyEntry k v) = 16 + length k"
  by (simp add: keyEntry_layout)

lemma populateLoop_step:
  assumes "length k < 2 ^ 32" and "offset v < 2 ^ 64"
  shows "populateLoop (pre @ keyEntry k v @ post) (length pre) m =
         populateLoop (pre @ keyEntry k v @ post) (length pre + length (keyEntry k v)) (m(k \<mapsto> v))"
proof -
  let ?f = "pre @ keyEntry k v @ post"
  let ?kl = "of_nat (length k) :: 32 word"
  let ?e = "le32 ?kl @ le32 (length' v) @ le64 (of_nat (offset v)) @ k"
  have f: "?f = pre @ ?e @ post" by (simp add: keyEntry_layout)
  have p: "length pre < length ?f" by simp
  have q: "\<not> length ?f < length pre + 16" by simp
  have kl: "uint32FromBytes ?f (length pre) = ?kl"
    unfolding f using uint32FromBytes_le32 [of pre "length pre" ?kl] by simp
  have vl: "uint32FromBytes ?f (length pre + 4) = length' v"
    unfolding f
    using uint32FromBytes_le32 [of "pre @ le32 ?kl" "length pre + 4" "length' v"] by simp
  have vp: "uint64FromBytes ?f (length pre + 8) = of_nat (offset v)"
    unfolding f
    using uint64FromBytes_le64 [of "pre @ le32 ?kl @ le32 (length' v)" "length pre + 8" "of_nat (offset v)"]
    by simp
  have ukl: "unat ?kl = length k" using assms(1) by (simp add: unat_of_nat)
  have uvp: "unat (of_nat (offset v) :: 64 word) = offset v"
    using assms(2) by (simp add: unat_of_nat)
  have b: "\<not> length ?f < length pre + 16 + length k" by simp
  have key: "take (length k) (drop (length pre + 16) ?f) = k"
    unfolding f by simp
  have e: "length pre + 16 + length k = length pre + length (keyEntry k v)" by simp
  have b': "\<not> length ?f < length pre + length (keyEntry k v)" by simp
  have v: "\<lparr>offset = offset v, length' = length' v\<rparr> = v" by simp
  show ?thesis
    by (subst populateLoop.simps)
      (simp only: p q kl vl vp ukl uvp b b' key e v Let_def if_True if_False)
qed

lemma populateLoop_end: "populateLoop f (length f) m = Inr m"
  by (subst populateLoop.simps) simp


lemma dumpKeys_entries:
  "set ks \<subseteq> dom m \<Longrightarrow>
   dumpKeys m ks kf = kf @ concat (map (\<lambda>k. keyEntry k (the (m k))) ks)"
  by (induction ks arbitrary: kf) auto

lemma populateLoop_entries:
  assumes "\<forall>k \<in> set ks. length k < 2 ^ 32 \<and> (\<exists>v. m k = Some v \<and> offset v < 2 ^ 64)"
  shows "populateLoop (pre @ concat (map (\<lambda>k. keyEntry k (the (m k))) ks)) (length pre) acc =
         Inr (\<lambda>k. if k \<in> set ks then m k else acc k)"
  using assms
proof (induction ks arbitrary: pre acc)
  case Nil
  show ?case using populateLoop_end [of pre acc] by simp
next
  case (Cons k ks)
  from Cons.prems obtain v where k: "length k < 2 ^ 32" and v: "m k = Some v" "offset v < 2 ^ 64"
    by auto
  from Cons.prems have rest: "\<forall>k \<in> set ks. length k < 2 ^ 32 \<and> (\<exists>v. m k = Some v \<and> offset v < 2 ^ 64)"
    by simp
  let ?post = "concat (map (\<lambda>k. keyEntry k (the (m k))) ks)"
  have "populateLoop (pre @ keyEntry k v @ ?post) (length pre) acc =
        populateLoop (pre @ keyEntry k v @ ?post) (length pre + length (keyEntry k v)) (acc(k \<mapsto> v))"
    using k v(2) by (rule populateLoop_step)
  also have "\<dots> = populateLoop ((pre @ keyEntry k v) @ ?post) (length (pre @ keyEntry k v)) (acc(k \<mapsto> v))"
    by simp
  also have "\<dots> = Inr (\<lambda>j. if j \<in> set ks then m j else (acc(k \<mapsto> v)) j)"
    by (rule Cons.IH [OF rest])
  also have "(\<lambda>j. if j \<in> set ks then m j else (acc(k \<mapsto> v)) j) =
             (\<lambda>j. if j \<in> set (k # ks) then m j else acc j)"
    using v(1) by auto
  finally show ?case by (simp add: v(1))
qed

lemma Close_OpenDB_fresh:
  assumes "keyfile d = []" and "ks \<noteq> []" and "set ks = dom (kToPos d)"
    and "\<forall>k \<in> set ks. length k < 2 ^ 32"
    and "\<forall>k oal. kToPos d k = Some oal \<longrightarrow> offset oal < 2 ^ 64"
  shows "OpenDB (Close ks d) =
         Inr \<lparr>kToPos = kToPos d, filledSize = length (datafile d),
              filebufferLen = makeFilebuf (length (datafile d)), datafile = datafile d,
              keyfile = concat (map (\<lambda>k. keyEntry k (the (kToPos d k))) ks)\<rparr>"
proof -
  let ?kf = "concat (map (\<lambda>k. keyEntry k (the (kToPos d k))) ks)"
  have dump: "dumpKeys (kToPos d) ks (keyfile d) = ?kf"
    using assms(1,3) by (simp add: dumpKeys_entries)
  from assms(2) obtain k ks' where "ks = k # ks'" by (cases ks) auto
  then have ne: "length ?kf \<noteq> 0" by simp
  have h: "\<forall>k \<in> set ks. length k < 2 ^ 32 \<and> (\<exists>v. kToPos d k = Some v \<and> offset v < 2 ^ 64)"
    using assms(3,4,5) by auto 
  have "populateLoop ([] @ ?kf) (length ([] :: byte list)) Map.empty =
        Inr (\<lambda>k. if k \<in> set ks then kToPos d k else None)"
    by (rule populateLoop_entries [OF h])
  moreover have "(\<lambda>k. if k \<in> set ks then kToPos d k else None) = kToPos d"
    using assms(3) by (auto simp: fun_eq_iff dom_def)
  ultimately have "populateKeys ?kf = Inr (kToPos d)"
    using ne by (simp add: populateKeys_def)
  then show ?thesis
    by (simp add: OpenDB_def Close_def dump Let_def)
qed

lemma Close_OpenDB_empty:
  "keyfile d = [] \<Longrightarrow> kToPos d = Map.empty \<Longrightarrow> OpenDB (Close [] d) = Inl EINVAL"
  by (simp add: OpenDB_def Close_def populateKeys_def)


lemma oneKey_populate: "populateKeys (keyEntry [97] \<lparr>offset = 13, length' = 1\<rparr>) =
    Inr [[97] \<mapsto> \<lparr>offset = 13, length' = 1\<rparr>]"
proof -
  let ?v = "\<lparr>offset = 13, length' = 1\<rparr>"
  have "populateLoop ([] @ keyEntry [97] ?v @ []) (length ([] :: byte list)) Map.empty =
        populateLoop ([] @ keyEntry [97] ?v @ []) (length ([] :: byte list) + length (keyEntry [97] ?v))
          [[97] \<mapsto> ?v]"
    by (rule populateLoop_step) simp_all
  then show ?thesis
    using populateLoop_end [of "keyEntry [97] ?v" "[[97] \<mapsto> ?v]"]
    by (simp add: populateKeys_def)
qed

text \<open>
  Claim C4 says that \<open>Close\<close> followed by \<open>OpenDB\<close> gives a handle with the mapping
  the handle had at \<open>Close\<close>, also at a location that was closed and reopened before,
  so that a key removed in between stays removed. The code brings the key back: on a new
  database, \<^verbatim>\<open>Upsert("a", "x")\<close>, \<open>Close\<close> and \<open>OpenDB\<close> give the handle
  \<open>oneKey\<close>; after \<^verbatim>\<open>Remove("a")\<close> it reports \<^verbatim>\<open>a\<close> absent; \<open>Close\<close> and
  \<open>OpenDB\<close> once more give a handle that holds the old pointer of \<^verbatim>\<open>a\<close> again, and
  \<open>Get\<close> returns \<^verbatim>\<open>x\<close> as present.
\<close>

theorem Remove_undone_by_reopen:
  "OpenDB (Close [[97]] (Upsert WriteOK (NewDB emptyFiles) [97] [120])) = Inr oneKey
   \<and> Get (Remove WriteOK oneKey [97]) [97] = Inr ([], False)
   \<and> OpenDB (Close [] (Remove WriteOK oneKey [97])) =
       Inr (oneKey\<lparr>filledSize := 27, datafile := newDocument [97] [120] @ newDocument [97] []\<rparr>)
   \<and> Get (oneKey\<lparr>filledSize := 27, datafile := newDocument [97] [120] @ newDocument [97] []\<rparr>) [97]
       = Inr ([120], True)"
proof -
  have 1: "OpenDB (Close [[97]] (Upsert WriteOK (NewDB emptyFiles) [97] [120])) = Inr oneKey"
    using oneKey_populate
    by (simp add: OpenDB_def Close_def emptyFiles_def getOAL_def oneKey_def makeFilebuf_def)
  have 2: "Get (Remove WriteOK oneKey [97]) [97] = Inr ([], False)"
    by (rule Remove_Get)
  have 3: "OpenDB (Close [] (Remove WriteOK oneKey [97])) =
       Inr (oneKey\<lparr>filledSize := 27, datafile := newDocument [97] [120] @ newDocument [97] []\<rparr>)"
    using oneKey_populate
    by (simp add: OpenDB_def Close_def oneKey_def makeFilebuf_def)
  have 4: "Get (oneKey\<lparr>filledSize := 27, datafile := newDocument [97] [120] @ newDocument [97] []\<rparr>) [97]
       = Inr ([120], True)"
    by (simp add: Get_def oneKey_def getValAtOAL_def mmapSlice_def newDocument_layout body_def)
  show ?thesis using 1 2 3 4 by simp
qed

section \<open>Further runs\<close>

text \<open>
  The record that \<open>Upsert\<close> writes for an empty value deletes the key when the file is
  opened with verification, although the writing handle still had it.
\<close>

lemma Upsert_empty_value_recovery:
  "OpenAndVerifyDB \<lparr>fdata = datafile (Upsert WriteOK (NewDB emptyFiles) [97] []), fkeys = []\<rparr> =
     Inr (\<lparr>kToPos = Map.empty, filledSize = 13, filebufferLen = 4000000000,
           datafile = newDocument [97] [], keyfile = []\<rparr>, None)"
proof -
  have v: "\<forall>r \<in> set [newDocument [97] []]. framed r \<and> checkDocument r"
    by (simp add: framed_newDocument checkDocument_newDocument)
  have "verifyLoop 4000000000 ([] @ concat [newDocument [97] []] @ []) (length ([] :: byte list)) Map.empty =
        verifyLoop 4000000000 ([] @ concat [newDocument [97] []] @ [])
          (length ([] :: byte list) + length (concat [newDocument [97] []]))
          (replay (length ([] :: byte list)) [newDocument [97] []] Map.empty)"
    by (rule verifyLoop_records [OF v]) simp
  then have "verifyLoop 4000000000 (newDocument [97] []) 0 Map.empty =
        Inr (Map.empty, 13, None)"
    using verifyLoop_end [of 4000000000 "newDocument [97] []" Map.empty]
    by (simp add: framed_newDocument)
  then show ?thesis
    by (simp add: OpenAndVerifyDB_def makeFilebuf_def Let_def)
qed

text \<open>
  The first part of the repository's test, run on the model: three inserts, two updates
  and a removal, consolidation (46 bytes are left), and an insert after it.
\<close>

lemmas names = Tom_def Dick_def Harry_def Washington_def Oregon_def Wisconsin_def NewYork_def Florida_def

lemma scenario_1:
  "Get threeKeys Tom = Inr (Washington, True) \<and> Get threeKeys Dick = Inr (Oregon, True)
   \<and> Get threeKeys Harry = Inr (Wisconsin, True)"
  by (simp add: threeKeys_def Get_def getOAL_def getValAtOAL_def mmapSlice_def
      newDocument_layout body_def names)

lemma scenario_2:
  "Get updated Tom = Inr (NewYork, True) \<and> Get updated Dick = Inr (Florida, True)
   \<and> Get updated Harry = Inr ([], False)"
  by (simp add: updated_def threeKeys_def Get_def getOAL_def getValAtOAL_def mmapSlice_def
      newDocument_layout body_def names)

lemma scenario_3:
  "\<exists>d. Consolidate [Dick, Tom] updated = Inr d \<and> length (datafile d) = 46 \<and> filledSize d = 46
     \<and> Get d Tom = Inr (NewYork, True) \<and> Get d Dick = Inr (Florida, True)
     \<and> Get d Harry = Inr ([], False)
     \<and> Get (Upsert WriteOK d Tom Washington) Tom = Inr (Washington, True)"
  by (simp add: Consolidate_def updated_def threeKeys_def Get_def getOAL_def getValAtOAL_def mmapSlice_def
      makeFilebuf_def newDocument_layout body_def names Let_def)

end
